theory Spec2Isabelle
  imports Main "HOL-Library.Word"
begin

unbundle bit_operations_syntax

section \<open>Register sets of the register allocator\<close>

subsection \<open>Data model\<close>

text \<open>
  Modelled from the spec: the declaration of \<open>RealReg\<close> is not among the source files.
  The spec describes a real register as a small integer identity; the code compares it
  with the constant 64, converts it with \<open>uint(r)\<close> and uses it as an array index, so it
  is taken as Go's unsigned byte.
\<close>

type_synonym RealReg = "8 word"

text \<open>\<open>type RegSet uint64\<close>\<close>

type_synonym RegSet = "64 word"

text \<open>
  The only run-time failure of the file: indexing the 64-slot array out of range, which
  Go reports with a panic.
\<close>

datatype error = IndexOutOfRange

text \<open>
  \<open>type regInUseSet [64]*vrState\<close>: a list of 64 slots, each a pointer to a value state,
  \<open>None\<close> for \<open>nil\<close>. The type variable stands for the non-nil pointers.
\<close>

type_synonym 'v regInUseSet = "'v option list"

definition regInUseSet_ok :: "'v regInUseSet \<Rightarrow> bool" where
  "regInUseSet_ok rs = (length rs = 64)"

subsection \<open>RegSet\<close>

text \<open>
  \<open>rs&(1<<uint(r)) != 0\<close>. The constant 1 takes the type of \<open>rs\<close>, and a shift of a
  64-bit value by 64 or more is 0 in Go, as \<open>push_bit\<close> on \<open>64 word\<close> is.
\<close>

definition RegSet_has :: "RegSet \<Rightarrow> RealReg \<Rightarrow> bool" where
  "RegSet_has rs r = (rs AND push_bit (unat r) 1 \<noteq> 0)"

definition RegSet_add :: "RegSet \<Rightarrow> RealReg \<Rightarrow> RegSet" where
  "RegSet_add rs r = (if r \<ge> 64 then rs else rs OR push_bit (unat r) 1)"

text \<open>\<open>NewRegSet\<close>: the loop over the arguments, from the zero value.\<close>

definition NewRegSet :: "RealReg list \<Rightarrow> RegSet" where
  "NewRegSet regs = foldl RegSet_add 0 regs"

text \<open>
  \<open>Range\<close> calls \<open>f\<close> for \<open>i = 0, ..., 63\<close> where bit \<open>i\<close> is set. The callback acts on
  a state of the caller, passed through the loop.
\<close>

definition RegSet_Range :: "RegSet \<Rightarrow> (RealReg \<Rightarrow> 's \<Rightarrow> 's) \<Rightarrow> 's \<Rightarrow> 's" where
  "RegSet_Range rs f s =
     foldl (\<lambda>s i. if rs AND push_bit i 1 \<noteq> 0 then f (of_nat i) s else s) s [0..<64]"

text \<open>The calls that \<open>Range\<close> makes, in the order it makes them.\<close>

definition Range_calls :: "RegSet \<Rightarrow> RealReg list" where
  "Range_calls rs = RegSet_Range rs (\<lambda>r tr. tr @ [r]) []"

subsection \<open>regInUseSet\<close>

definition reset :: "'v regInUseSet \<Rightarrow> 'v regInUseSet" where
  "reset rs = foldl (\<lambda>a i. a[i := None]) rs [0..<length rs]"

text \<open>\<open>var ret regInUseSet\<close> is the array of 64 nil pointers.\<close>

definition newRegInUseSet :: "'v regInUseSet" where
  "newRegInUseSet = reset (replicate 64 None)"

definition regInUseSet_has :: "'v regInUseSet \<Rightarrow> RealReg \<Rightarrow> bool" where
  "regInUseSet_has rs r = (r < 64 \<and> rs ! unat r \<noteq> None)"

text \<open>\<open>get\<close> and \<open>remove\<close> index the array with no check of their own.\<close>

definition regInUseSet_get :: "'v regInUseSet \<Rightarrow> RealReg \<Rightarrow> error + 'v option" where
  "regInUseSet_get rs r = (if unat r < 64 then Inr (rs ! unat r) else Inl IndexOutOfRange)"

definition regInUseSet_remove :: "'v regInUseSet \<Rightarrow> RealReg \<Rightarrow> error + 'v regInUseSet" where
  "regInUseSet_remove rs r =
     (if unat r < 64 then Inr (rs[unat r := None]) else Inl IndexOutOfRange)"

definition regInUseSet_add :: "'v regInUseSet \<Rightarrow> RealReg \<Rightarrow> 'v option \<Rightarrow> 'v regInUseSet" where
  "regInUseSet_add rs r vr = (if r \<ge> 64 then rs else rs[unat r := vr])"

definition regInUseSet_range :: "'v regInUseSet \<Rightarrow> (RealReg \<Rightarrow> 'v \<Rightarrow> 's \<Rightarrow> 's) \<Rightarrow> 's \<Rightarrow> 's" where
  "regInUseSet_range rs f s =
     foldl (\<lambda>s i. case rs ! i of None \<Rightarrow> s | Some vr \<Rightarrow> f (of_nat i) vr s) s [0..<length rs]"

text \<open>The calls that \<open>range_\<close> makes, in the order it makes them.\<close>

definition range_calls :: "'v regInUseSet \<Rightarrow> (RealReg \<times> 'v) list" where
  "range_calls rs = regInUseSet_range rs (\<lambda>r vr tr. tr @ [(r, vr)]) []"

section \<open>The linear-scan core\<close>

text \<open>
  Modelled from the spec: the allocator core (section 4.3 of the specification) is not
  among the source files. The definitions of this section follow the specification's
  words: a state with an \<open>active\<close> list ordered by interval end, an \<open>inactive\<close> list and
  one free pool per register class; intervals processed in the order given; expiry,
  assignment from the free pool, eviction of the active value with the furthest end, and
  spilling of caller-saved registers at a call boundary. Stack slots are not modelled: a
  spilled value is only recorded.
\<close>

text \<open>
  Modelled from the spec: \<open>remove(r)\<close> of the register set model (section 4.1, and the
  data model's "membership test, add, remove") is not among the source files; the
  \<open>RegSet\<close> of the source has \<open>has\<close>, \<open>add\<close> and \<open>Range\<close> only. It clears the bit of \<open>r\<close>,
  as \<open>add\<close> sets it.
\<close>

definition RegSet_remove :: "RegSet \<Rightarrow> RealReg \<Rightarrow> RegSet" where
  "RegSet_remove rs r = rs AND NOT (push_bit (unat r) 1)"

text \<open>The number of registers in a pool: the number of calls that \<open>Range\<close> makes.\<close>

definition pool_size :: "RegSet \<Rightarrow> nat" where
  "pool_size rs = length (Range_calls rs)"

text \<open>A live interval of an abstract value, with the value's class and fixed register.\<close>

record LiveInterval =
  owner :: nat
  rclass :: nat
  istart :: nat
  iend :: nat
  fixed :: "RealReg option"

text \<open>The target's register description: the allocatable registers of each class.\<close>

record TargetRegisters =
  allocatable :: "nat \<Rightarrow> RegSet"
  caller_saved :: RegSet

record AllocationState =
  active :: "(LiveInterval \<times> RealReg) list"
  inactive :: "(LiveInterval \<times> RealReg) list"
  free :: "nat \<Rightarrow> RegSet"
  spilled :: "LiveInterval list"

datatype scan_event = Interval LiveInterval | CallBoundary

text \<open>A class configured with no real register is a fatal configuration error.\<close>

datatype alloc_error = ClassWithoutRegisters nat

definition init_state :: "TargetRegisters \<Rightarrow> AllocationState" where
  "init_state cfg = \<lparr>active = [], inactive = [], free = allocatable cfg, spilled = []\<rparr>"

text \<open>\<open>active\<close> is kept ordered by interval end.\<close>

fun insert_active ::
  "LiveInterval \<times> RealReg \<Rightarrow> (LiveInterval \<times> RealReg) list \<Rightarrow> (LiveInterval \<times> RealReg) list"
where
  "insert_active e [] = [e]"
| "insert_active e (x # xs) =
     (if iend (fst e) \<le> iend (fst x) then e # x # xs else x # insert_active e xs)"

text \<open>Returning the registers of a list of entries to the pools of their classes.\<close>

definition give_back ::
  "(nat \<Rightarrow> RegSet) \<Rightarrow> (LiveInterval \<times> RealReg) list \<Rightarrow> (nat \<Rightarrow> RegSet)" where
  "give_back pools es =
     foldl (\<lambda>f e. f(rclass (fst e) := RegSet_add (f (rclass (fst e))) (snd e))) pools es"

text \<open>
  Step 1: expire from \<open>active\<close> every interval whose end precedes the start of the current
  one, and return its register to the free pool.
\<close>

definition expire :: "LiveInterval \<Rightarrow> AllocationState \<Rightarrow> AllocationState" where
  "expire cur st =
     st\<lparr>active := filter (\<lambda>e. \<not> iend (fst e) < istart cur) (active st),
        free := give_back (free st) (filter (\<lambda>e. iend (fst e) < istart cur) (active st))\<rparr>"

text \<open>
  Step 2: a free register of the class that satisfies the fixed-register constraint, if
  there is one. Without a constraint the lowest free register is taken.
\<close>

definition pick_free :: "RegSet \<Rightarrow> RealReg option \<Rightarrow> RealReg option" where
  "pick_free pool fx =
     (case fx of
        Some r \<Rightarrow> if RegSet_has pool r then Some r else None
      | None \<Rightarrow> (case Range_calls pool of [] \<Rightarrow> None | r # _ \<Rightarrow> Some r))"

text \<open>Step 3: the entry with the furthest end point; the earliest one in the list on a tie.\<close>

fun furthest :: "(LiveInterval \<times> RealReg) list \<Rightarrow> (LiveInterval \<times> RealReg) option" where
  "furthest [] = None"
| "furthest (x # xs) =
     (case furthest xs of
        None \<Rightarrow> Some x
      | Some y \<Rightarrow> if iend (fst x) < iend (fst y) then Some y else Some x)"

text \<open>
  Steps 2 and 3: assign a free register; otherwise evict the victim when it ends later
  than the current interval, giving its register to the current value; otherwise spill the
  current value.
\<close>

definition assign :: "LiveInterval \<Rightarrow> AllocationState \<Rightarrow> AllocationState" where
  "assign cur st =
     (case pick_free (free st (rclass cur)) (fixed cur) of
        Some r \<Rightarrow>
          st\<lparr>active := insert_active (cur, r) (active st),
             free := (free st)(rclass cur := RegSet_remove (free st (rclass cur)) r)\<rparr>
      | None \<Rightarrow>
          (case furthest (filter (\<lambda>e. rclass (fst e) = rclass cur) (active st)) of
             None \<Rightarrow> st\<lparr>spilled := spilled st @ [cur]\<rparr>
           | Some victim \<Rightarrow>
               if iend cur < iend (fst victim)
               then st\<lparr>active := insert_active (cur, snd victim)
                                    (filter (\<lambda>e. e \<noteq> victim) (active st)),
                       spilled := spilled st @ [fst victim]\<rparr>
               else st\<lparr>spilled := spilled st @ [cur]\<rparr>))"

text \<open>
  Step 5: at a call boundary every caller-saved register that holds a live value is
  spilled, which frees the register.
\<close>

definition call_boundary :: "TargetRegisters \<Rightarrow> AllocationState \<Rightarrow> AllocationState" where
  "call_boundary cfg st =
     st\<lparr>active := filter (\<lambda>e. \<not> RegSet_has (caller_saved cfg) (snd e)) (active st),
        free := give_back (free st)
                  (filter (\<lambda>e. RegSet_has (caller_saved cfg) (snd e)) (active st)),
        spilled := spilled st @
                  map fst (filter (\<lambda>e. RegSet_has (caller_saved cfg) (snd e)) (active st))\<rparr>"

definition scan_step ::
  "TargetRegisters \<Rightarrow> AllocationState \<Rightarrow> scan_event \<Rightarrow> alloc_error + AllocationState" where
  "scan_step cfg st ev =
     (case ev of
        CallBoundary \<Rightarrow> Inr (call_boundary cfg st)
      | Interval cur \<Rightarrow>
          if allocatable cfg (rclass cur) = 0 then Inl (ClassWithoutRegisters (rclass cur))
          else Inr (assign cur (expire cur st)))"

text \<open>The scan returns the state after each step, or the error that aborted it.\<close>

fun linear_scan ::
  "TargetRegisters \<Rightarrow> AllocationState \<Rightarrow> scan_event list \<Rightarrow> alloc_error + AllocationState list"
where
  "linear_scan cfg st [] = Inr []"
| "linear_scan cfg st (ev # evs) =
     (case scan_step cfg st ev of
        Inl err \<Rightarrow> Inl err
      | Inr st' \<Rightarrow> (case linear_scan cfg st' evs of
                     Inl err \<Rightarrow> Inl err
                   | Inr sts \<Rightarrow> Inr (st' # sts)))"

text \<open>The registers of a class in use: the entries of the class in \<open>active\<close> and \<open>inactive\<close>.\<close>

definition in_use_count :: "AllocationState \<Rightarrow> nat \<Rightarrow> nat" where
  "in_use_count st c = length (filter (\<lambda>e. rclass (fst e) = c) (active st @ inactive st))"



text \<open>
  The scenario of the specification's section 8: three values of one class with two
  allocatable registers, \<open>v1\<close> defined at point 0 and last used at 5, \<open>v2\<close> at 1 and 2,
  \<open>v3\<close> at 2 and 4, followed here by a call boundary. A program point has a use and a
  definition position: instruction \<open>i\<close> uses at \<open>2 * i\<close> and defines at \<open>2 * i + 1\<close>.
\<close>

definition scenario_target :: TargetRegisters where
  "scenario_target =
     \<lparr>allocatable = (\<lambda>c. if c = 0 then NewRegSet [1, 2] else 0), caller_saved = NewRegSet [1]\<rparr>"

definition scenario_events :: "scan_event list" where
  "scenario_events =
     [Interval \<lparr>owner = 1, rclass = 0, istart = 1, iend = 10, fixed = None\<rparr>,
      Interval \<lparr>owner = 2, rclass = 0, istart = 3, iend = 4, fixed = None\<rparr>,
      Interval \<lparr>owner = 3, rclass = 0, istart = 5, iend = 8, fixed = None\<rparr>,
      CallBoundary]"

text \<open>The registers held by the active values of a class, and the invariant of the scan.\<close>

definition held :: "AllocationState \<Rightarrow> nat \<Rightarrow> RealReg list" where
  "held st c = map snd (filter (\<lambda>e. rclass (fst e) = c) (active st))"

definition pools_ok :: "TargetRegisters \<Rightarrow> AllocationState \<Rightarrow> bool" where
  "pools_ok cfg st \<longleftrightarrow>
     inactive st = [] \<and>
     (\<forall>c r. RegSet_has (free st c) r \<longleftrightarrow>
        RegSet_has (allocatable cfg c) r \<and> r \<notin> set (held st c)) \<and>
     (\<forall>c. \<forall>r \<in> set (held st c). RegSet_has (allocatable cfg c) r) \<and>
     (\<forall>c. distinct (held st c))"

section \<open>Facts about RegSet\<close>

lemma has_bit: "RegSet_has rs r \<longleftrightarrow> bit rs (unat r)"
  unfolding RegSet_has_def by (rule bit_iff_and_push_bit_not_eq_0 [symmetric])

lemma has_add: "RegSet_has (RegSet_add rs s) r \<longleftrightarrow> (r = s \<and> r < 64) \<or> RegSet_has rs r"
  by (auto simp add: has_bit RegSet_add_def bit_simps word_less_nat_alt word_le_nat_alt not_le word_unat_eq_iff)

lemma has_ge_64: "64 \<le> r \<Longrightarrow> \<not> RegSet_has rs r"
  by (auto simp add: has_bit word_le_nat_alt dest: bit_imp_le_length)

lemma has_NewRegSet_aux: "RegSet_has (foldl RegSet_add rs regs) r \<longleftrightarrow> (r \<in> set regs \<and> r < 64) \<or> RegSet_has rs r"
  by (induction regs arbitrary: rs) (auto simp add: has_add)

lemma has_zero: "\<not> RegSet_has 0 r"
  by (simp add: has_bit)

lemma RegSet_eqI: "(\<And>r. RegSet_has a r = RegSet_has b r) \<Longrightarrow> a = b"
proof (rule bit_word_eqI)
  fix n assume h: "\<And>r. RegSet_has a r = RegSet_has b r" and n: "n < LENGTH(64)"
  have "unat (of_nat n :: RealReg) = n" using n by (simp add: unat_of_nat)
  with h [of "of_nat n"] show "bit a n = bit b n" by (simp add: has_bit)
qed


lemma foldl_collect:
  "foldl (\<lambda>s i. if P i then s @ [g i] else s) s xs = s @ map g (filter P xs)"
  by (induction xs arbitrary: s) simp_all

lemma foldl_visit:
  "foldl (\<lambda>s i. if P i then f (g i) s else s) s xs = foldl (\<lambda>s r. f r s) s (map g (filter P xs))"
  by (induction xs arbitrary: s) simp_all

lemma test_bit: "(w AND push_bit n 1 \<noteq> 0) = bit w n" for w :: "'a::len word"
  by (rule bit_iff_and_push_bit_not_eq_0 [symmetric])

lemma Range_calls_eq: "Range_calls rs = map of_nat (filter (bit rs) [0..<64])"
  unfolding Range_calls_def RegSet_Range_def test_bit by (simp add: foldl_collect)

lemma Range_visits: "RegSet_Range rs f s = foldl (\<lambda>s r. f r s) s (Range_calls rs)"
  unfolding Range_calls_eq unfolding RegSet_Range_def test_bit by (rule foldl_visit)

lemma unat_of_nat_reg: "n < 64 \<Longrightarrow> unat (of_nat n :: RealReg) = n"
  by (simp add: unat_of_nat)

lemma set_Range_calls: "set (Range_calls rs) = {r. RegSet_has rs r}"
proof (rule set_eqI)
  fix r :: RealReg
  show "r \<in> set (Range_calls rs) \<longleftrightarrow> r \<in> {r. RegSet_has rs r}"
  proof
    assume "r \<in> set (Range_calls rs)"
    then obtain n where n: "n < 64" "bit rs n" "r = of_nat n"
      by (auto simp add: Range_calls_eq)
    then show "r \<in> {r. RegSet_has rs r}"
      by (simp add: has_bit unat_of_nat_reg)
  next
    assume "r \<in> {r. RegSet_has rs r}"
    then have b: "bit rs (unat r)" by (simp add: has_bit)
    then have "unat r < 64" by (auto dest: bit_imp_le_length)
    with b have "unat r \<in> set (filter (bit rs) [0..<64])" by simp
    then have "of_nat (unat r) \<in> set (Range_calls rs)"
      unfolding Range_calls_eq set_map by (rule imageI)
    then show "r \<in> set (Range_calls rs)" by simp
  qed
qed

lemma sorted_Range_calls: "sorted_wrt (<) (Range_calls rs)"
proof -
  have "sorted_wrt (<) (filter (bit rs) [0..<64])"
    by (rule sorted_wrt_filter) simp
  then have "sorted_wrt (\<lambda>a b. (of_nat a :: RealReg) < of_nat b) (filter (bit rs) [0..<64])"
    by (rule sorted_wrt_mono_rel [rotated]) (simp add: word_less_nat_alt unat_of_nat_reg)
  then show ?thesis
    by (simp add: Range_calls_eq sorted_wrt_map)
qed

lemma distinct_Range_calls: "distinct (Range_calls rs)"
  using sorted_Range_calls [of rs] by (simp add: strict_sorted_iff)

section \<open>Facts about regInUseSet\<close>

lemma reset_prefix:
  "n \<le> length rs \<Longrightarrow> foldl (\<lambda>a i. a[i := None]) rs [0..<n] = replicate n None @ drop n rs"
proof (induction n)
  case 0
  then show ?case by simp
next
  case (Suc n)
  then have "n < length rs" by simp
  then have "(drop n rs)[0 := None] = None # drop (Suc n) rs"
    by (simp add: Cons_nth_drop_Suc [symmetric])
  with Suc show ?case
    by (simp add: list_update_append replicate_append_same)
qed

lemma reset_eq: "reset rs = replicate (length rs) None"
  by (simp add: reset_def reset_prefix)

lemma newRegInUseSet_eq: "newRegInUseSet = replicate 64 None"
  by (simp add: newRegInUseSet_def reset_eq)

lemma newRegInUseSet_ok: "regInUseSet_ok newRegInUseSet"
  by (simp add: newRegInUseSet_eq regInUseSet_ok_def)

lemma reg_lt_64: "(r :: RealReg) < 64 \<longleftrightarrow> unat r < 64"
  by (simp add: word_less_nat_alt)

lemma reg_ge_64: "(64 :: RealReg) \<le> r \<longleftrightarrow> 64 \<le> unat r"
  by (simp add: word_le_nat_alt)

lemma get_add_same:
  "regInUseSet_ok rs \<Longrightarrow> r < 64 \<Longrightarrow> regInUseSet_get (regInUseSet_add rs r vr) r = Inr vr"
  by (simp add: regInUseSet_get_def regInUseSet_add_def regInUseSet_ok_def reg_lt_64 reg_ge_64)

lemma get_add_other:
  "q \<noteq> r \<Longrightarrow> regInUseSet_get (regInUseSet_add rs r vr) q = regInUseSet_get rs q"
  by (simp add: regInUseSet_get_def regInUseSet_add_def word_unat_eq_iff)

lemma foldl_collect_opt:
  "foldl (\<lambda>s i. case g i of None \<Rightarrow> s | Some v \<Rightarrow> s @ [(h i, v)]) s xs =
     s @ map (\<lambda>i. (h i, the (g i))) (filter (\<lambda>i. g i \<noteq> None) xs)"
  by (induction xs arbitrary: s) (simp_all split: option.split)

lemma foldl_visit_opt:
  "foldl (\<lambda>s i. case g i of None \<Rightarrow> s | Some v \<Rightarrow> f (h i) v s) s xs =
     foldl (\<lambda>s (r, vr). f r vr s) s (map (\<lambda>i. (h i, the (g i))) (filter (\<lambda>i. g i \<noteq> None) xs))"
  by (induction xs arbitrary: s) (simp_all split: option.split)

lemma range_calls_eq:
  "range_calls rs =
     map (\<lambda>i. (of_nat i, the (rs ! i))) (filter (\<lambda>i. rs ! i \<noteq> None) [0..<length rs])"
  by (simp add: range_calls_def regInUseSet_range_def foldl_collect_opt)

lemma range_visits:
  "regInUseSet_range rs f s = foldl (\<lambda>s (r, vr). f r vr s) s (range_calls rs)"
  unfolding range_calls_eq regInUseSet_range_def by (rule foldl_visit_opt)



lemma regInUseSet_ok_add: "regInUseSet_ok (regInUseSet_add rs r vr) = regInUseSet_ok rs"
  by (simp add: regInUseSet_ok_def regInUseSet_add_def)

lemma has_in_use_ge_64: "64 \<le> r \<Longrightarrow> \<not> regInUseSet_has rs r"
  by (simp add: regInUseSet_has_def not_less)

lemma add_in_use_ge_64: "64 \<le> r \<Longrightarrow> regInUseSet_add rs r vr = rs"
  by (simp add: regInUseSet_add_def)

lemma get_remove_same:
  "regInUseSet_ok rs \<Longrightarrow> r < 64 \<Longrightarrow>
     \<exists>rs'. regInUseSet_remove rs r = Inr rs' \<and> regInUseSet_ok rs' \<and>
       regInUseSet_get rs' r = Inr None \<and>
       (\<forall>q. q \<noteq> r \<longrightarrow> regInUseSet_get rs' q = regInUseSet_get rs q)"
  by (simp add: regInUseSet_remove_def regInUseSet_get_def regInUseSet_ok_def reg_lt_64
      word_unat_eq_iff)

section \<open>Facts about the linear-scan core\<close>

lemma has_remove: "RegSet_has (RegSet_remove rs r) q \<longleftrightarrow> RegSet_has rs q \<and> q \<noteq> r"
  by (auto simp add: has_bit RegSet_remove_def bit_simps word_unat_eq_iff dest: bit_imp_le_length)

lemma pool_size_card: "pool_size rs = card {r. RegSet_has rs r}"
  unfolding pool_size_def set_Range_calls [symmetric]
  by (rule distinct_card [symmetric]) (rule distinct_Range_calls)

lemma has_give_back:
  "RegSet_has (give_back f es c) r \<longleftrightarrow>
     RegSet_has (f c) r \<or> (\<exists>e \<in> set es. rclass (fst e) = c \<and> snd e = r \<and> r < 64)"
  unfolding give_back_def
  by (induction es arbitrary: f) (auto simp add: has_add)

lemma insert_active_split:
  "\<exists>ys zs. xs = ys @ zs \<and> insert_active e xs = ys @ e # zs"
proof (induction xs)
  case Nil
  show ?case by simp
next
  case (Cons x xs)
  show ?case
  proof (cases "iend (fst e) \<le> iend (fst x)")
    case True
    then have "x # xs = [] @ x # xs \<and> insert_active e (x # xs) = [] @ e # x # xs" by simp
    then show ?thesis by blast
  next
    case False
    from Cons obtain ys zs where "xs = ys @ zs" "insert_active e xs = ys @ e # zs" by blast
    with False have "x # xs = (x # ys) @ zs \<and> insert_active e (x # xs) = (x # ys) @ e # zs"
      by simp
    then show ?thesis by blast
  qed
qed

lemma set_insert_active: "set (insert_active e xs) = insert e (set xs)"
  using insert_active_split [of xs e] by auto

lemma distinct_insert_active:
  "distinct (map g (filter Q (insert_active e xs))) = distinct (map g (filter Q (e # xs)))"
  using insert_active_split [of xs e] by auto

lemma length_insert_active:
  "length (filter Q (insert_active e xs)) = length (filter Q (e # xs))"
  using insert_active_split [of xs e] by auto

lemma pick_free_has: "pick_free pool fx = Some r \<Longrightarrow> RegSet_has pool r"
proof (cases fx)
  case None
  assume "pick_free pool fx = Some r"
  with None have "r \<in> set (Range_calls pool)"
    by (auto simp add: pick_free_def split: list.splits)
  then show ?thesis by (simp add: set_Range_calls)
next
  case (Some q)
  assume "pick_free pool fx = Some r"
  with Some show ?thesis by (auto simp add: pick_free_def split: if_splits)
qed

lemma furthest_mem: "furthest xs = Some v \<Longrightarrow> v \<in> set xs"
  by (induction xs arbitrary: v) (auto split: option.splits if_splits)

lemma pools_ok_init: "pools_ok cfg (init_state cfg)"
  by (simp add: pools_ok_def init_state_def held_def)

lemma distinct_map_eq:
  "distinct (map f xs) \<Longrightarrow> x \<in> set xs \<Longrightarrow> y \<in> set xs \<Longrightarrow> f x = f y \<Longrightarrow> x = y"
  by (auto simp add: distinct_map dest: inj_onD)

lemma pools_ok_release:
  assumes ok: "pools_ok cfg st"
    and act: "active st' = filter (\<lambda>e. \<not> P e) (active st)"
    and fr: "free st' = give_back (free st) (filter P (active st))"
    and ina: "inactive st' = inactive st"
  shows "pools_ok cfg st'"
proof -
  let ?Q = "\<lambda>c e. rclass (fst e) = c"
  have dist: "\<And>c. distinct (map snd (filter (?Q c) (active st)))"
    using ok by (simp add: pools_ok_def held_def)
  have al: "\<And>c e. e \<in> set (active st) \<Longrightarrow> ?Q c e \<Longrightarrow> RegSet_has (allocatable cfg c) (snd e)"
    using ok by (auto simp add: pools_ok_def held_def)
  have fre: "\<And>c r. RegSet_has (free st c) r \<longleftrightarrow>
      RegSet_has (allocatable cfg c) r \<and> r \<notin> snd ` {e \<in> set (active st). ?Q c e}"
    using ok by (simp add: pools_ok_def held_def)
  have held': "\<And>c. held st' c = map snd (filter (\<lambda>e. \<not> P e) (filter (?Q c) (active st)))"
    by (simp add: held_def act conj_commute)
  have d': "\<And>c. distinct (held st' c)"
    unfolding held' by (rule distinct_map_filter) (rule dist)
  have a': "\<And>c r. r \<in> set (held st' c) \<Longrightarrow> RegSet_has (allocatable cfg c) r"
    unfolding held' using al by auto
  have f': "RegSet_has (free st' c) r \<longleftrightarrow>
      RegSet_has (allocatable cfg c) r \<and> r \<notin> set (held st' c)" for c r
  proof
    assume "RegSet_has (free st' c) r"
    then consider "RegSet_has (free st c) r"
      | e where "e \<in> set (active st)" "P e" "?Q c e" "snd e = r"
      by (auto simp add: fr has_give_back)
    then show "RegSet_has (allocatable cfg c) r \<and> r \<notin> set (held st' c)"
    proof cases
      case 1
      then show ?thesis unfolding held' by (auto simp add: fre)
    next
      case 2
      have "r \<notin> set (held st' c)"
      proof
        assume "r \<in> set (held st' c)"
        then obtain e' where e': "e' \<in> set (active st)" "\<not> P e'" "?Q c e'" "snd e' = r"
          unfolding held' by auto
        have "e = e'"
          by (rule distinct_map_eq [OF dist [of c]]) (use 2 e' in simp_all)
        with 2 e' show False by simp
      qed
      with 2 al [of e c] show ?thesis by simp
    qed
  next
    assume h: "RegSet_has (allocatable cfg c) r \<and> r \<notin> set (held st' c)"
    have r64: "r < 64"
    proof (rule ccontr)
      assume "\<not> r < 64"
      then have "64 \<le> r" by simp
      with h show False by (simp add: has_ge_64)
    qed
    show "RegSet_has (free st' c) r"
    proof (cases "r \<in> snd ` {e \<in> set (active st). ?Q c e}")
      case False
      with h show ?thesis by (simp add: fr has_give_back fre)
    next
      case True
      then obtain e where e: "e \<in> set (active st)" "?Q c e" "snd e = r" by auto
      with h have "P e" unfolding held' by auto
      with e r64 have "\<exists>e \<in> set (filter P (active st)). rclass (fst e) = c \<and> snd e = r \<and> r < 64"
        by (intro bexI [of _ e]) simp_all
      then show ?thesis unfolding fr has_give_back by (rule disjI2)
    qed
  qed
  from ok have "inactive st' = []" by (simp add: ina pools_ok_def)
  with d' a' f' show ?thesis unfolding pools_ok_def by blast
qed

lemma pools_ok_expire: "pools_ok cfg st \<Longrightarrow> pools_ok cfg (expire cur st)"
  by (erule pools_ok_release [where P = "\<lambda>e. iend (fst e) < istart cur"])
    (simp_all add: expire_def)

lemma pools_ok_call_boundary: "pools_ok cfg st \<Longrightarrow> pools_ok cfg (call_boundary cfg st)"
  by (erule pools_ok_release [where P = "\<lambda>e. RegSet_has (caller_saved cfg) (snd e)"])
    (simp_all add: call_boundary_def)


lemma pools_ok_spilled: "pools_ok cfg (st\<lparr>spilled := xs\<rparr>) = pools_ok cfg st"
  by (simp add: pools_ok_def held_def)

lemma set_filter_insert_active:
  "set (map g (filter Q (insert_active e xs))) = set (map g (filter Q (e # xs)))"
  using insert_active_split [of xs e] by auto

lemma pools_ok_take:
  assumes ok: "pools_ok cfg st"
    and r: "RegSet_has (free st (rclass cur)) r"
    and act: "active st' = insert_active (cur, r) (active st)"
    and fr: "free st' = (free st)(rclass cur := RegSet_remove (free st (rclass cur)) r)"
    and ina: "inactive st' = inactive st"
  shows "pools_ok cfg st'"
proof -
  from ok r have ra: "RegSet_has (allocatable cfg (rclass cur)) r" "r \<notin> set (held st (rclass cur))"
    by (simp_all add: pools_ok_def)
  have hs: "set (held st' c) = (if c = rclass cur then insert r (set (held st c)) else set (held st c))" for c
    unfolding held_def act set_filter_insert_active by auto
  have hd: "distinct (held st' c) = distinct (map snd (filter (\<lambda>e. rclass (fst e) = c) ((cur, r) # active st)))" for c
    unfolding held_def act by (rule distinct_insert_active)
  have d': "distinct (held st' c)" for c
    using ok ra(2) unfolding hd by (auto simp add: pools_ok_def held_def)
  have a': "r' \<in> set (held st' c) \<Longrightarrow> RegSet_has (allocatable cfg c) r'" for c r'
    using ok ra(1) unfolding hs by (auto simp add: pools_ok_def split: if_splits)
  have f': "RegSet_has (free st' c) r' \<longleftrightarrow>
      RegSet_has (allocatable cfg c) r' \<and> r' \<notin> set (held st' c)" for c r'
    using ok unfolding hs fr by (auto simp add: pools_ok_def has_remove)
  from ok have "inactive st' = []" by (simp add: ina pools_ok_def)
  with d' a' f' show ?thesis unfolding pools_ok_def by blast
qed

lemma pools_ok_evict:
  assumes ok: "pools_ok cfg st"
    and v: "victim \<in> set (active st)" "rclass (fst victim) = rclass cur"
    and act: "active st' = insert_active (cur, snd victim) (filter (\<lambda>e. e \<noteq> victim) (active st))"
    and fr: "free st' = free st"
    and ina: "inactive st' = inactive st"
  shows "pools_ok cfg st'"
proof -
  let ?Q = "\<lambda>c e. rclass (fst e) = c"
  let ?rest = "filter (\<lambda>e. e \<noteq> victim) (active st)"
  have dist: "\<And>c. distinct (map snd (filter (?Q c) (active st)))"
    using ok by (simp add: pools_ok_def held_def)
  have rest: "map snd (filter (?Q c) ?rest) = map snd (filter (\<lambda>e. e \<noteq> victim) (filter (?Q c) (active st)))" for c
    by (simp add: conj_commute)
  have drest: "distinct (map snd (filter (?Q c) ?rest))" for c
    unfolding rest by (rule distinct_map_filter) (rule dist)
  have notin: "snd victim \<notin> set (map snd (filter (?Q (rclass cur)) ?rest))"
  proof
    assume "snd victim \<in> set (map snd (filter (?Q (rclass cur)) ?rest))"
    then obtain e where e: "e \<in> set (active st)" "e \<noteq> victim" "?Q (rclass cur) e" "snd e = snd victim"
      by auto
    have "e = victim"
      by (rule distinct_map_eq [OF dist [of "rclass cur"]]) (use e v in simp_all)
    with e show False by simp
  qed
  have hs: "set (held st' c) = set (held st c)" for c
  proof (cases "c = rclass cur")
    case True
    have "set (held st c) = insert (snd victim) (set (map snd (filter (?Q c) ?rest)))"
      using v True by (auto simp add: held_def)
    then show ?thesis
      unfolding held_def act set_filter_insert_active using True by simp
  next
    case False
    with v have "filter (?Q c) ?rest = filter (?Q c) (active st)"
      by (auto intro: filter_cong)
    with False show ?thesis
      unfolding held_def act set_filter_insert_active by simp
  qed
  have d': "distinct (held st' c)" for c
    unfolding held_def act distinct_insert_active using drest [of c] notin by auto
  from ok have "inactive st' = []" by (simp add: ina pools_ok_def)
  with ok d' show ?thesis unfolding pools_ok_def hs fr by blast
qed

lemma pools_ok_assign:
  assumes ok: "pools_ok cfg st"
  shows "pools_ok cfg (assign cur st)"
proof (cases "pick_free (free st (rclass cur)) (fixed cur)")
  case (Some r)
  then have "RegSet_has (free st (rclass cur)) r" by (rule pick_free_has)
  with ok show ?thesis
    by (rule pools_ok_take) (simp_all add: assign_def Some)
next
  case None
  show ?thesis
  proof (cases "furthest (filter (\<lambda>e. rclass (fst e) = rclass cur) (active st))")
    case no: None
    with None ok show ?thesis by (simp add: assign_def pools_ok_spilled)
  next
    case (Some victim)
    then have v: "victim \<in> set (active st)" "rclass (fst victim) = rclass cur"
      by (auto dest: furthest_mem)
    show ?thesis
    proof (cases "iend cur < iend (fst victim)")
      case True
      from ok v show ?thesis
        by (rule pools_ok_evict) (simp_all add: assign_def None Some True)
    next
      case False
      with None Some ok show ?thesis by (simp add: assign_def pools_ok_spilled)
    qed
  qed
qed

lemma pools_ok_step: "pools_ok cfg st \<Longrightarrow> scan_step cfg st ev = Inr st' \<Longrightarrow> pools_ok cfg st'"
  by (cases ev)
    (auto simp add: scan_step_def pools_ok_assign pools_ok_expire pools_ok_call_boundary
      split: if_splits)

lemma pools_ok_scan:
  "pools_ok cfg st \<Longrightarrow> linear_scan cfg st evs = Inr sts \<Longrightarrow> st' \<in> set sts \<Longrightarrow> pools_ok cfg st'"
proof (induction evs arbitrary: st sts)
  case Nil
  then show ?case by simp
next
  case (Cons ev evs)
  from Cons.prems(2) obtain st1 sts1 where s: "scan_step cfg st ev = Inr st1"
    "linear_scan cfg st1 evs = Inr sts1" "sts = st1 # sts1"
    by (auto split: sum.splits)
  from Cons.prems(1) s(1) have ok1: "pools_ok cfg st1" by (rule pools_ok_step)
  from Cons.prems(3) s(3) consider "st' = st1" | "st' \<in> set sts1" by auto
  then show ?case
  proof cases
    case 1
    with ok1 show ?thesis by simp
  next
    case 2
    with ok1 s(2) show ?thesis by (rule Cons.IH)
  qed
qed

lemma pools_ok_count:
  assumes ok: "pools_ok cfg st"
  shows "pool_size (free st c) + in_use_count st c = pool_size (allocatable cfg c)"
proof -
  let ?A = "{r. RegSet_has (allocatable cfg c) r}"
  let ?H = "set (held st c)"
  have fin: "finite ?H" by simp
  have sub: "?H \<subseteq> ?A" using ok by (auto simp add: pools_ok_def)
  have fr: "{r. RegSet_has (free st c) r} = ?A - ?H" using ok by (auto simp add: pools_ok_def)
  have "in_use_count st c = length (held st c)"
    using ok by (simp add: in_use_count_def held_def pools_ok_def)
  also have "\<dots> = card ?H" using ok by (simp add: distinct_card pools_ok_def)
  finally have iu: "in_use_count st c = card ?H" .
  have "card (?A - ?H) + card ?H = card ?A"
    using fin sub by (simp add: card_Diff_subset card_mono)
  then show ?thesis by (simp add: pool_size_card fr iu)
qed








section \<open>The claims\<close>

subsection \<open>Register IDs out of range\<close>

text \<open>
  C1, as stated, at register 64: \<open>regInUseSet.get\<close> and \<open>regInUseSet.remove\<close> index the
  64-slot array with no guard, so they panic with an index out of range instead of
  ignoring the register.
\<close>

theorem get_remove_out_of_range_panic:
  "regInUseSet_get (newRegInUseSet :: nat regInUseSet) 64 = Inl IndexOutOfRange \<and>
   regInUseSet_remove (newRegInUseSet :: nat regInUseSet) 64 = Inl IndexOutOfRange"
  by (simp add: regInUseSet_get_def regInUseSet_remove_def)

text \<open>
  C1, amended: the four guarded operations of the bitset layer, \<open>RegSet.has\<close>,
  \<open>RegSet.add\<close>, \<open>regInUseSet.has\<close> and \<open>regInUseSet.add\<close>, accept a register ID of 64
  or more without failing: the mutators leave the set unchanged and the queries report
  non-membership.
\<close>

theorem guarded_ops_ignore_out_of_range:
  "64 \<le> r \<Longrightarrow>
     \<not> RegSet_has rs r \<and> RegSet_add rs r = rs \<and>
     \<not> regInUseSet_has iu r \<and> regInUseSet_add iu r vr = iu"
  by (simp add: has_ge_64 RegSet_add_def has_in_use_ge_64 add_in_use_ge_64)

theorem guarded_ops_ignore_out_of_range_witness:
  "(64 :: RealReg) \<le> 200 \<and>
     \<not> RegSet_has (NewRegSet [1, 2]) 200 \<and> RegSet_add (NewRegSet [1, 2]) 200 = NewRegSet [1, 2] \<and>
     \<not> regInUseSet_has (regInUseSet_add newRegInUseSet 3 (Some (7 :: nat))) 200 \<and>
     regInUseSet_add (regInUseSet_add newRegInUseSet 3 (Some (7 :: nat))) 200 (Some 9) =
       regInUseSet_add newRegInUseSet 3 (Some 7)"
proof -
  have h: "(64 :: RealReg) \<le> 200" by simp
  show ?thesis
    using h guarded_ops_ignore_out_of_range
      [OF h, of "NewRegSet [1, 2]" "regInUseSet_add newRegInUseSet 3 (Some (7 :: nat))" "Some 9"]
    by simp
qed

text \<open>
  C5: for every RegSet \<open>rs\<close> and every register ID \<open>r\<close> of 64 or more, \<open>rs.add(r)\<close>
  returns \<open>rs\<close> unchanged, and \<open>regInUseSet.add\<close> with such an \<open>r\<close> changes no slot.
  Neither function has an error result.
\<close>

theorem add_ignores_out_of_range:
  "64 \<le> r \<Longrightarrow> RegSet_add rs r = rs \<and> regInUseSet_add iu r vr = iu"
  by (simp add: RegSet_add_def regInUseSet_add_def)

theorem add_ignores_out_of_range_witness:
  "(64 :: RealReg) \<le> 64 \<and> RegSet_add 5 64 = 5 \<and>
     regInUseSet_add (newRegInUseSet :: nat regInUseSet) 64 (Some 1) = newRegInUseSet"
proof -
  have h: "(64 :: RealReg) \<le> 64" by simp
  show ?thesis
    using h add_ignores_out_of_range [OF h, of 5 "newRegInUseSet :: nat regInUseSet" "Some 1"]
    by simp
qed

text \<open>
  C8: the membership test of RegSet is total: for every register ID \<open>r\<close> of 64 or more
  \<open>rs.has(r)\<close> is false, whatever \<open>rs\<close> is.
\<close>

theorem RegSet_has_out_of_range:
  "64 \<le> r \<Longrightarrow> RegSet_has rs r = False"
  by (simp add: has_ge_64)

theorem RegSet_has_out_of_range_witness:
  "(64 :: RealReg) \<le> 255 \<and> RegSet_has (- 1) 255 = False"
proof -
  have h: "(64 :: RealReg) \<le> 255" by simp
  show ?thesis using h RegSet_has_out_of_range [OF h, of "- 1"] by simp
qed

subsection \<open>Membership and enumeration\<close>

text \<open>
  C3: for a RegSet built from the empty set by a sequence of \<open>add\<close>, \<open>has(r)\<close> is true
  exactly for the registers below 64 that were added; \<open>Range(f)\<close> runs \<open>f\<close> over the list
  of its calls, and this list holds exactly the registers \<open>r\<close> with \<open>has(r)\<close>, each once,
  in strictly ascending order.
\<close>

theorem RegSet_built_by_adds:
  "(RegSet_has (foldl RegSet_add 0 regs) r \<longleftrightarrow> r \<in> set regs \<and> r < 64) \<and>
   RegSet_Range (foldl RegSet_add 0 regs) f s =
     foldl (\<lambda>s r. f r s) s (Range_calls (foldl RegSet_add 0 regs)) \<and>
   set (Range_calls (foldl RegSet_add 0 regs)) = {r. RegSet_has (foldl RegSet_add 0 regs) r} \<and>
   distinct (Range_calls (foldl RegSet_add 0 regs)) \<and>
   sorted_wrt (<) (Range_calls (foldl RegSet_add 0 regs))"
  by (simp add: has_NewRegSet_aux has_zero Range_visits set_Range_calls distinct_Range_calls
      sorted_Range_calls)

text \<open>
  C6: \<open>NewRegSet(regs...)\<close> is the set of the arguments below 64: \<open>has(r)\<close> holds if and
  only if \<open>r\<close> is among \<open>regs\<close> and below 64.
\<close>

theorem NewRegSet_members:
  "RegSet_has (NewRegSet regs) r \<longleftrightarrow> r \<in> set regs \<and> r < 64"
  by (simp add: NewRegSet_def has_NewRegSet_aux has_zero)

text \<open>
  C9: \<open>RegSet.add\<close> is idempotent and commutative, so \<open>NewRegSet\<close> gives the same set for
  argument lists that differ in order or in repetitions only.
\<close>

theorem RegSet_add_idem_commute:
  "RegSet_add (RegSet_add rs r) r = RegSet_add rs r \<and>
   RegSet_add (RegSet_add rs r) s = RegSet_add (RegSet_add rs s) r \<and>
   (set xs = set ys \<longrightarrow> NewRegSet xs = NewRegSet ys)"
proof (intro conjI impI)
  show "RegSet_add (RegSet_add rs r) r = RegSet_add rs r"
    by (rule RegSet_eqI) (auto simp add: has_add)
  show "RegSet_add (RegSet_add rs r) s = RegSet_add (RegSet_add rs s) r"
    by (rule RegSet_eqI) (auto simp add: has_add)
  assume "set xs = set ys"
  then show "NewRegSet xs = NewRegSet ys"
    by (intro RegSet_eqI) (simp add: NewRegSet_def has_NewRegSet_aux)
qed

theorem RegSet_add_idem_commute_witness:
  "set [1, 2, 1 :: RealReg] = set [2, 1] \<and> NewRegSet [1, 2, 1] = NewRegSet [2, 1] \<and>
   RegSet_add (RegSet_add 0 3) 3 = RegSet_add 0 3 \<and>
   RegSet_add (RegSet_add 0 3) 70 = RegSet_add (RegSet_add 0 70) 3"
proof -
  have h: "set [1, 2, 1 :: RealReg] = set [2, 1]" by auto
  show ?thesis
    using h RegSet_add_idem_commute [of 0 3 70 "[1, 2, 1]" "[2, 1]"] by simp
qed

text \<open>
  C4: the register set has a \<open>remove\<close> beside \<open>has\<close>, \<open>add\<close> and the ascending \<open>Range\<close>:
  for every RegSet \<open>rs\<close> and register \<open>r\<close> below 64, removing \<open>r\<close> gives a set in which
  \<open>has(r)\<close> is false and the membership of every other register is as before. The
  operation is the one modelled from the specification.
\<close>

theorem RegSet_remove_frame:
  "r < 64 \<Longrightarrow>
     \<not> RegSet_has (RegSet_remove rs r) r \<and>
     (\<forall>q. q \<noteq> r \<longrightarrow> RegSet_has (RegSet_remove rs r) q = RegSet_has rs q)"
  by (simp add: has_remove)

theorem RegSet_remove_frame_witness:
  "(3 :: RealReg) < 64 \<and> RegSet_has (NewRegSet [3, 5]) 3 \<and>
     RegSet_has (RegSet_remove (NewRegSet [3, 5]) 3) 3 = False \<and>
     RegSet_has (RegSet_remove (NewRegSet [3, 5]) 3) 5"
proof -
  have h: "(3 :: RealReg) < 64" by simp
  have m: "RegSet_has (NewRegSet [3, 5]) 3" "RegSet_has (NewRegSet [3, 5]) 5"
    by (simp_all add: NewRegSet_def has_add)
  show ?thesis using h m RegSet_remove_frame [OF h, of "NewRegSet [3, 5]"] by simp
qed

subsection \<open>The in-use register map\<close>



text \<open>
  C10: the mutations of regInUseSet touch their own slot only: for a register \<open>r\<close> below
  64, after \<open>add(r, vr)\<close> the query \<open>get(r)\<close> returns \<open>vr\<close> and every other slot is as
  before; \<open>remove(r)\<close> succeeds, leaves the slot of \<open>r\<close> empty and every other slot as
  before.
\<close>

theorem regInUseSet_frame:
  "regInUseSet_ok rs \<Longrightarrow> r < 64 \<Longrightarrow>
     regInUseSet_get (regInUseSet_add rs r vr) r = Inr vr \<and>
     (\<forall>q. q \<noteq> r \<longrightarrow> regInUseSet_get (regInUseSet_add rs r vr) q = regInUseSet_get rs q) \<and>
     (\<exists>rs'. regInUseSet_remove rs r = Inr rs' \<and> regInUseSet_ok rs' \<and>
        regInUseSet_get rs' r = Inr None \<and>
        (\<forall>q. q \<noteq> r \<longrightarrow> regInUseSet_get rs' q = regInUseSet_get rs q))"
  by (simp add: get_add_same get_add_other get_remove_same)

theorem regInUseSet_frame_witness:
  "regInUseSet_ok (regInUseSet_add newRegInUseSet 2 (Some (4 :: nat))) \<and> (9 :: RealReg) < 64 \<and>
   regInUseSet_get (regInUseSet_add (regInUseSet_add newRegInUseSet 2 (Some (4 :: nat))) 9 (Some 6)) 9
     = Inr (Some 6) \<and>
   regInUseSet_get (regInUseSet_add (regInUseSet_add newRegInUseSet 2 (Some (4 :: nat))) 9 (Some 6)) 2
     = regInUseSet_get (regInUseSet_add newRegInUseSet 2 (Some (4 :: nat))) 2"
proof -
  have ok: "regInUseSet_ok (regInUseSet_add newRegInUseSet 2 (Some (4 :: nat)))"
    by (simp add: regInUseSet_ok_add newRegInUseSet_ok)
  have r: "(9 :: RealReg) < 64" by simp
  show ?thesis
    using ok r regInUseSet_frame [OF ok r, of "Some 6"] by simp
qed

subsection \<open>Conservation of the register count\<close>

text \<open>
  C7: at every step of the linear scan, for every class, the number of registers in the
  free pool plus the number of registers of the class in use is the number of allocatable
  registers of the class. The steps are the states that the scan returns, and the state
  it starts from.
\<close>

theorem register_count_conservation:
  "linear_scan cfg (init_state cfg) evs = Inr sts \<Longrightarrow> st \<in> set (init_state cfg # sts) \<Longrightarrow>
     pool_size (free st c) + in_use_count st c = pool_size (allocatable cfg c)"
proof (rule pools_ok_count)
  assume run: "linear_scan cfg (init_state cfg) evs = Inr sts"
    and mem: "st \<in> set (init_state cfg # sts)"
  show "pools_ok cfg st"
  proof (cases "st = init_state cfg")
    case True
    then show ?thesis by (simp add: pools_ok_init)
  next
    case False
    with mem have "st \<in> set sts" by simp
    with pools_ok_init run show ?thesis by (rule pools_ok_scan)
  qed
qed

theorem register_count_conservation_witness:
  "map_sum id (map (\<lambda>st. pool_size (free st 0) + in_use_count st 0))
     (linear_scan scenario_target (init_state scenario_target) scenario_events) =
   Inr [2, 2, 2, 2]"
proof -
  have "case linear_scan scenario_target (init_state scenario_target) scenario_events of
      Inl _ \<Rightarrow> False | Inr sts \<Rightarrow> length sts = 4"
    by code_simp
  then obtain sts where
    run: "linear_scan scenario_target (init_state scenario_target) scenario_events = Inr sts"
    and len: "length sts = 4"
    by (auto split: sum.splits)
  have two: "pool_size (allocatable scenario_target 0) = 2"
    by code_simp
  have "pool_size (free st 0) + in_use_count st 0 = 2" if "st \<in> set sts" for st
    using register_count_conservation [OF run, of st 0] that by (simp add: two)
  then have "map (\<lambda>st. pool_size (free st 0) + in_use_count st 0) sts = replicate (length sts) 2"
    by (simp add: map_replicate_const [symmetric] cong: map_cong)
  with run len show ?thesis by (simp add: numeral_Bit0 replicate_add)
qed

end
